theory Spec2Isabelle
  imports Main "HOL-Library.Word"
begin

unbundle bit_operations_syntax

section \<open>Machine types\<close>

type_synonym u8 = "8 word"
type_synonym u16 = "16 word"
type_synonym u32 = "32 word"

section \<open>arcfour.c: the keystream generator\<close>

text \<open>
  The permutation \<^verbatim>\<open>uint8_t state[256]\<close> is a list of 256 bytes. The index
  variables \<^verbatim>\<open>i\<close> and \<^verbatim>\<open>j\<close> are C \<^verbatim>\<open>int\<close>s that stay in 0..255, modelled
  as \<^typ>\<open>nat\<close> with the source's \<^verbatim>\<open>% 256\<close> written out.
\<close>

text \<open>\<^verbatim>\<open>t = state[i]; state[i] = state[j]; state[j] = t;\<close>\<close>

definition swap_state :: "nat \<Rightarrow> nat \<Rightarrow> u8 list \<Rightarrow> u8 list" where
  "swap_state i j state = (let t = state ! i in (state[i := state ! j])[j := t])"

text \<open>
  The second loop of \<^verbatim>\<open>arcfour_key_setup\<close>:
  \<^verbatim>\<open>for (i = 0, j = 0; i < 256; ++i) { j = (j + state[i] + key[i % len]) % 256; swap }\<close>.
  The key is the list of its \<^verbatim>\<open>len\<close> bytes; the source divides by \<^verbatim>\<open>len\<close>, so
  every use assumes a non-empty key.
\<close>

function key_setup_loop :: "u8 list \<Rightarrow> nat \<Rightarrow> nat \<Rightarrow> u8 list \<Rightarrow> u8 list" where
  "key_setup_loop key i j state =
     (if i < 256 then
        let j' = (j + unat (state ! i) + unat (key ! (i mod length key))) mod 256
        in key_setup_loop key (i + 1) j' (swap_state i j' state)
      else state)"
  by pat_completeness auto
termination
  by (relation "measure (\<lambda>(key, i, j, state). 256 - i)") auto

declare key_setup_loop.simps [simp del]

text \<open>The first loop, \<^verbatim>\<open>state[i] = i\<close> for \<^verbatim>\<open>i < 256\<close>, then the second.\<close>

definition arcfour_key_setup :: "u8 list \<Rightarrow> u8 list" where
  "arcfour_key_setup key = key_setup_loop key 0 0 (map of_nat [0..<256])"

text \<open>
  The loop of \<^verbatim>\<open>arcfour_generate_stream\<close>, \<^verbatim>\<open>len - idx\<close> iterations to go. The
  result is the updated permutation and the bytes written to \<^verbatim>\<open>out[idx..len-1]\<close>.
\<close>

fun generate_stream_loop :: "nat \<Rightarrow> nat \<Rightarrow> nat \<Rightarrow> u8 list \<Rightarrow> u8 list \<times> u8 list" where
  "generate_stream_loop 0 i j state = (state, [])"
| "generate_stream_loop (Suc n) i j state =
     (let i' = (i + 1) mod 256;
          j' = (j + unat (state ! i')) mod 256;
          state' = swap_state i' j' state;
          b = state' ! ((unat (state' ! i') + unat (state' ! j')) mod 256);
          (state'', out) = generate_stream_loop n i' j' state'
      in (state'', b # out))"

text \<open>
  \<^verbatim>\<open>for (idx = 0, i = 0, j = 0; idx < len; ++idx)\<close>: both index counters are locals
  that start at zero in every call; only the permutation survives the call.
\<close>

definition arcfour_generate_stream :: "u8 list \<Rightarrow> nat \<Rightarrow> u8 list \<times> u8 list" where
  "arcfour_generate_stream state len = generate_stream_loop len 0 0 state"

section \<open>ihex.h: errors and the input stream\<close>

text \<open>
  \<^verbatim>\<open>ParseError(line, column, message, data)\<close> keeps its four constructor
  arguments (the layout of the text \<^verbatim>\<open>what()\<close> returns is not modelled). The
  argument \<^verbatim>\<open>data\<close> is a \<^verbatim>\<open>const char*\<close> into the line buffer, which the
  constructor reads as a C string: the stored characters up to the first NUL.
  \<open>IoFailure\<close> stands for \<^verbatim>\<open>std::ios_base::failure\<close>, thrown by the stream because
  \<^verbatim>\<open>Read\<close> enables exceptions on \<^verbatim>\<open>failbit | badbit\<close>.
\<close>

datatype error = IoFailure | ParseError nat nat string string

definition c_str :: "string \<Rightarrow> string" where
  "c_str line = takeWhile (\<lambda>c. c \<noteq> CHR 0x00) line"

text \<open>
  \<^verbatim>\<open>input.getline(line, sizeof(line))\<close> on the characters still unread, with
  \<open>k\<close> the room left in the buffer (initially \<^verbatim>\<open>sizeof(line) - 1 = 1025\<close>). The
  library tests, in this order: end of input (\<^verbatim>\<open>eofbit\<close>, not an exception
  here), the delimiter (extracted and counted, not stored), the buffer being full
  (\<^verbatim>\<open>failbit\<close>). The result is the stored characters, \<^verbatim>\<open>gcount()\<close> and the
  unread rest; \<open>None\<close> is \<^verbatim>\<open>failbit\<close>.
\<close>

fun getline :: "nat \<Rightarrow> string \<Rightarrow> (string \<times> nat \<times> string) option" where
  "getline k [] = Some ([], 0, [])"
| "getline k (c # cs) =
     (if c = CHR 0x0A then Some ([], 1, cs)
      else if k = 0 then None
      else (case getline (k - 1) cs of
              None \<Rightarrow> None
            | Some (line, gcount, rest) \<Rightarrow> Some (c # line, Suc gcount, rest)))"

text \<open>
  The first two statements of the loop body of \<^verbatim>\<open>Parse\<close>: the line, and
  \<^verbatim>\<open>length = input.gcount() - 1\<close>. Extracting no character at all also sets
  \<^verbatim>\<open>failbit\<close>, so reading past the end of the input throws.
\<close>

definition read_line :: "string \<Rightarrow> error + (string \<times> nat \<times> string)" where
  "read_line input =
     (case getline 1025 input of
        None \<Rightarrow> Inl IoFailure
      | Some (line, gcount, rest) \<Rightarrow>
          if gcount = 0 then Inl IoFailure else Inr (line, gcount - 1, rest))"

text \<open>The \<^verbatim>\<open>if\<close> chain that turns one character into a nibble.\<close>

definition hex_nibble :: "char \<Rightarrow> u8 option" where
  "hex_nibble c =
     (let nibble = (of_char c :: u8) in
      if nibble \<ge> 0x30 \<and> nibble \<le> 0x39 then Some (nibble - 0x30)
      else if nibble \<ge> 0x61 \<and> nibble \<le> 0x66 then Some (nibble - (0x61 - 10))
      else if nibble \<ge> 0x41 \<and> nibble \<le> 0x46 then Some (nibble - (0x41 - 10))
      else None)"

text \<open>
  \<^verbatim>\<open>for(int i = 1; i < length; i++)\<close> over the characters \<^verbatim>\<open>line[i..length-1]\<close>.
  \<open>buffer\<close> holds the completed bytes \<^verbatim>\<open>buffer[0..byte-1]\<close>, \<open>cur\<close> is the cell
  \<^verbatim>\<open>buffer[byte]\<close> being filled (written at every odd \<open>i\<close> before it is read).
  The loop returns the completed bytes and their sum (\<open>sum8\<close> is the source's
  \<^verbatim>\<open>uint8_t sum\<close>).
\<close>

fun convert :: "nat \<Rightarrow> string \<Rightarrow> nat \<Rightarrow> nat \<Rightarrow> string \<Rightarrow> u8 list \<Rightarrow> u8 \<Rightarrow> u8
    \<Rightarrow> error + (u8 list \<times> u8)" where
  "convert l line len i [] buffer cur sum8 = Inr (buffer, sum8)"
| "convert l line len i (c # cs) buffer cur sum8 =
     (case hex_nibble c of
        Some nibble \<Rightarrow>
          if odd i then convert l line len (i + 1) cs buffer nibble sum8
          else let b = push_bit 4 cur OR nibble
               in convert l line len (i + 1) cs (buffer @ [b]) b (sum8 + b)
      | None \<Rightarrow>
          if c = CHR 0x0D \<and> i = len - 1 then Inr (buffer, sum8)
          else Inl (ParseError l i ''not an hexadecimal character'' (c_str line)))"

definition msg_too_short :: string where
  "msg_too_short = ''not starting with '' @ [CHR 0x27, CHR 0x3A, CHR 0x27] @ '' or too short''"

text \<open>
  The part of the loop body both versions of \<^verbatim>\<open>Parse\<close> share: the start check,
  the conversion, the checksum test and the length test. The result is
  \<^verbatim>\<open>buffer[0..byte-1]\<close>.
\<close>

definition decode_line :: "nat \<Rightarrow> string \<Rightarrow> nat \<Rightarrow> error + u8 list" where
  "decode_line l line len =
     (if len < 10 \<or> line ! 0 \<noteq> CHR 0x3A then Inl (ParseError l 0 msg_too_short (c_str line))
      else (case convert l line len 1 (drop 1 (take len line)) [] 0 0 of
              Inl e \<Rightarrow> Inl e
            | Inr (buffer, sum8) \<Rightarrow>
                if sum8 \<noteq> 0 then Inl (ParseError l (len - 2) ''checksum error'' (c_str line))
                else if unat (buffer ! 0) + 5 \<noteq> length buffer
                  then Inl (ParseError l 2 ''mismatched length'' (c_str line))
                else Inr buffer))"

section \<open>Writing hexadecimal\<close>

text \<open>One nibble to its upper-case digit, one byte to its two digits.\<close>

definition hex_char :: "u8 \<Rightarrow> char" where
  "hex_char n = (if n < 10 then char_of (unat n + 0x30) else char_of (unat n + (0x41 - 10)))"

definition hex_byte :: "u8 \<Rightarrow> string" where
  "hex_byte b = [hex_char (drop_bit 4 b), hex_char (b AND 0xF)]"

definition CRLF :: string where
  "CRLF = [CHR 0x0D, CHR 0x0A]"

section \<open>ihex.h, first version: the image is the list of records\<close>

text \<open>
  \<^verbatim>\<open>class HexRecord\<close>; the fields \<^verbatim>\<open>size\<close> and \<^verbatim>\<open>type\<close> are \<open>size_r\<close> and
  \<open>type_r\<close> here.
\<close>

record HexRecord =
  size_r :: u8
  address :: u16
  type_r :: u8
  data :: "u8 list"
  checksum :: u8

text \<open>
  The constructor \<^verbatim>\<open>HexRecord(uint8_t* data)\<close>, on the decoded bytes of a line;
  \<^verbatim>\<open>this->data.assign(&data[4], &data[size + 4])\<close> copies the \<^verbatim>\<open>size\<close> bytes from
  index 4 on.
\<close>

definition HexRecord_new :: "u8 list \<Rightarrow> HexRecord" where
  "HexRecord_new buf =
     \<lparr> size_r = buf ! 0,
       address = push_bit 8 (ucast (buf ! 1)) OR ucast (buf ! 2),
       type_r = buf ! 3,
       data = take (unat (buf ! 0)) (drop 4 buf),
       checksum = buf ! (unat (buf ! 0) + 4) \<rparr>"

text \<open>\<^verbatim>\<open>HexRecord::operator==\<close>: four of the five fields are compared.\<close>

definition HexRecord_eq :: "HexRecord \<Rightarrow> HexRecord \<Rightarrow> bool" where
  "HexRecord_eq r other =
     (if size_r r \<noteq> size_r other then False
      else if address r \<noteq> address other then False
      else if type_r r \<noteq> type_r other then False
      else if checksum r \<noteq> checksum other then False
      else True)"

text \<open>\<^verbatim>\<open>HexRecord::UpdateChecksum\<close>, every sum truncated to \<^verbatim>\<open>uint8_t\<close>.\<close>

definition UpdateChecksum :: "HexRecord \<Rightarrow> HexRecord" where
  "UpdateChecksum r =
     r\<lparr>checksum :=
        - fold (\<lambda>i c. c + i) (data r)
            (size_r r + ucast (drop_bit 8 (address r)) + ucast (address r AND 0xff) + type_r r)\<rparr>"

text \<open>
  \<^verbatim>\<open>HexRecord::Generate\<close>: the buffer is \<^verbatim>\<open>size\<close>, the two address bytes, the type,
  \<^verbatim>\<open>data[i]\<close> for \<^verbatim>\<open>i < size\<close>, and the stored checksum. The output stream is the
  string of the characters written.
\<close>

definition HexRecord_Generate :: "HexRecord \<Rightarrow> string" where
  "HexRecord_Generate r =
     (let buffer = [size_r r, ucast (drop_bit 8 (address r)), ucast (address r), type_r r]
                   @ map (\<lambda>i. data r ! i) [0..<unat (size_r r)]
                   @ [checksum r]
      in CHR 0x3A # concat (map hex_byte buffer) @ CRLF)"

text \<open>\<^verbatim>\<open>IntelHex::Generate\<close>: every stored record in order.\<close>

definition Generate_vec :: "HexRecord list \<Rightarrow> string" where
  "Generate_vec fData = concat (map HexRecord_Generate fData)"

text \<open>
  \<^verbatim>\<open>IntelHex::operator==\<close> is \<^verbatim>\<open>std::vector\<close>'s: equal sizes and element-wise
  \<^verbatim>\<open>HexRecord::operator==\<close>.
\<close>

definition IntelHex_eq_vec :: "HexRecord list \<Rightarrow> HexRecord list \<Rightarrow> bool" where
  "IntelHex_eq_vec a b = (length a = length b \<and> list_all2 HexRecord_eq a b)"

lemma getline_shorter:
  "getline k input = Some (line, gcount, rest) \<Longrightarrow> 0 < gcount \<Longrightarrow> length rest < length input"
proof (induction k input arbitrary: line gcount rest rule: getline.induct)
  case (1 k)
  then show ?case by simp
next
  case (2 k c cs)
  show ?case
  proof (cases "c = CHR 0x0A")
    case True
    with "2.prems" show ?thesis by simp
  next
    case False
    with "2.prems" obtain line' g' where
      g: "getline (k - 1) cs = Some (line', g', rest)" and k: "k \<noteq> 0"
      by (auto split: if_splits option.splits)
    show ?thesis
    proof (cases "g' = 0")
      case True
      with g have "rest = []" by (cases cs) (auto split: if_splits option.splits)
      then show ?thesis by simp
    next
      case False
      with "2.IH" [OF \<open>c \<noteq> CHR 0x0A\<close> k g] show ?thesis by simp
    qed
  qed
qed

lemma read_line_shorter:
  "read_line input = Inr (line, len, rest) \<Longrightarrow> length rest < length input"
  by (auto simp: read_line_def split: option.splits if_splits dest: getline_shorter)

text \<open>
  \<^verbatim>\<open>IntelHex::Parse\<close> of the first version, from \<^verbatim>\<open>fData.clear()\<close> on: the loop
  \<^verbatim>\<open>for(int l = 1; true; l++)\<close> over the unread input. Every type of record is
  stored; a record of type 1 ends the loop. An exception is the result \<open>Inl\<close>.
\<close>

function Parse_loop_vec :: "nat \<Rightarrow> HexRecord list \<Rightarrow> string \<Rightarrow> error + HexRecord list" where
  "Parse_loop_vec l fData input =
     (case read_line input of
        Inl e \<Rightarrow> Inl e
      | Inr (line, len, rest) \<Rightarrow>
          (case decode_line l line len of
             Inl e \<Rightarrow> Inl e
           | Inr buffer \<Rightarrow>
               let r = HexRecord_new buffer
               in if type_r r = 1 then Inr (fData @ [r])
                  else Parse_loop_vec (l + 1) (fData @ [r]) rest))"
  by pat_completeness auto
termination
  by (relation "measure (\<lambda>(l, fData, input). length input)")
     (auto dest: read_line_shorter)

declare Parse_loop_vec.simps [simp del]

definition Parse_vec :: "string \<Rightarrow> error + HexRecord list" where
  "Parse_vec input = Parse_loop_vec 1 [] input"

text \<open>
  \<^verbatim>\<open>IntelHex::Cipher\<close> of the first version: the loop over every stored record,
  whatever its type, with the permutation carried from record to record.
\<close>

fun Cipher_loop_vec :: "u8 list \<Rightarrow> HexRecord list \<Rightarrow> HexRecord list" where
  "Cipher_loop_vec state [] = []"
| "Cipher_loop_vec state (line # rest) =
     (let (state', stream) = arcfour_generate_stream state (length (data line));
          line' = UpdateChecksum (line\<lparr>data := map (\<lambda>(d, k). d XOR k) (zip (data line) stream)\<rparr>)
      in line' # Cipher_loop_vec state' rest)"

definition Cipher_vec :: "u8 list \<Rightarrow> HexRecord list \<Rightarrow> HexRecord list" where
  "Cipher_vec key fData =
     (let state = arcfour_key_setup key;
          (state', stream) = arcfour_generate_stream state 256
      in Cipher_loop_vec state' fData)"

section \<open>ihex.h, second version: the image maps absolute addresses to payloads\<close>

text \<open>
  \<^verbatim>\<open>std::map<uint32_t, std::vector<uint8_t> >\<close> is the list of its entries in
  ascending key order, the order in which the source iterates over it.
  \<^verbatim>\<open>fData.insert(record)\<close> adds the entry at its place; when an entry with the
  same key exists, \<^verbatim>\<open>std::map::insert\<close> leaves the map as it is.
\<close>

type_synonym image = "(u32 \<times> u8 list) list"

fun map_insert :: "u32 \<times> u8 list \<Rightarrow> image \<Rightarrow> image" where
  "map_insert record [] = [record]"
| "map_insert record (e # es) =
     (if fst record < fst e then record # e # es
      else if fst record = fst e then e # es
      else e # map_insert record es)"

text \<open>
  \<^verbatim>\<open>IntelHex::Parse\<close> of the second version: \<^verbatim>\<open>extended\<close> is the local
  \<^verbatim>\<open>uint32_t\<close>, zero when the loop starts.
\<close>

function Parse_loop_map :: "nat \<Rightarrow> u32 \<Rightarrow> image \<Rightarrow> string \<Rightarrow> error + image" where
  "Parse_loop_map l extended fData input =
     (case read_line input of
        Inl e \<Rightarrow> Inl e
      | Inr (line, len, rest) \<Rightarrow>
          (case decode_line l line len of
             Inl e \<Rightarrow> Inl e
           | Inr buffer \<Rightarrow>
               let count = buffer ! 0;
                   offset = (push_bit 8 (ucast (buffer ! 1)) OR ucast (buffer ! 2) :: u16);
                   type = buffer ! 3
               in if type = 0 then
                    Parse_loop_map (l + 1) extended
                      (map_insert (extended OR ucast offset, take (unat count) (drop 4 buffer)) fData)
                      rest
                  else if type = 1 then
                    (if count \<noteq> 0
                     then Inl (ParseError l 9 ''end-of-file record has data'' (c_str line))
                     else Inr fData)
                  else if type = 4 then
                    (if count \<noteq> 2
                     then Inl (ParseError l 9 ''wrong size for extended address record'' (c_str line))
                     else Parse_loop_map (l + 1)
                            (push_bit 24 (ucast (buffer ! 4)) OR push_bit 16 (ucast (buffer ! 5)))
                            fData rest)
                  else Inl (ParseError l 8 ''unhandled record type'' (c_str line))))"
  by pat_completeness auto
termination
  by (relation "measure (\<lambda>(l, extended, fData, input). length input)")
     (auto dest: read_line_shorter)

declare Parse_loop_map.simps [simp del]

definition Parse_map :: "string \<Rightarrow> error + image" where
  "Parse_map input = Parse_loop_map 1 0 [] input"

text \<open>
  The second loop of \<^verbatim>\<open>IntelHex::WriteRecord\<close>: the two digits of \<^verbatim>\<open>buffer[i]\<close>,
  then \<^verbatim>\<open>buffer[length + 4] -= buffer[i]\<close>, for \<^verbatim>\<open>i\<close> up to \<^verbatim>\<open>length + 4\<close>.
\<close>

function write_loop :: "nat \<Rightarrow> nat \<Rightarrow> u8 list \<Rightarrow> string" where
  "write_loop len i buffer =
     (if i < len + 5 then
        hex_byte (buffer ! i)
        @ write_loop len (i + 1) (buffer[len + 4 := buffer ! (len + 4) - buffer ! i])
      else [])"
  by pat_completeness auto
termination
  by (relation "measure (\<lambda>(len, i, buffer). len + 5 - i)") auto

declare write_loop.simps [simp del]

text \<open>
  \<^verbatim>\<open>IntelHex::WriteRecord\<close>; \<^verbatim>\<open>buffer[0] = length\<close> keeps the low eight bits of
  \<^verbatim>\<open>data.size()\<close>.
\<close>

definition WriteRecord :: "u8 \<Rightarrow> u16 \<Rightarrow> u8 list \<Rightarrow> string" where
  "WriteRecord type addr dat =
     (let len = length dat;
          buffer = [of_nat len, ucast (drop_bit 8 addr), ucast addr, type] @ dat @ [0]
      in CHR 0x3A # write_loop len 0 buffer @ CRLF)"

text \<open>
  \<^verbatim>\<open>IntelHex::Generate\<close> of the second version: the loop over the entries in key
  order, then the end record. The \<^verbatim>\<open>uint16_t address\<close> parameter of
  \<^verbatim>\<open>WriteRecord\<close> receives the low half of \<^verbatim>\<open>line.first\<close>.
\<close>

fun Generate_loop_map :: "u32 \<Rightarrow> image \<Rightarrow> string" where
  "Generate_loop_map extended [] = WriteRecord 1 0 []"
| "Generate_loop_map extended (line # rest) =
     (if (fst line AND 0xffff0000) \<noteq> extended then
        WriteRecord 4 0 [ucast (drop_bit 24 (fst line)), ucast (drop_bit 16 (fst line))]
        @ WriteRecord 0 (ucast (fst line)) (snd line)
        @ Generate_loop_map (fst line AND 0xffff0000) rest
      else
        WriteRecord 0 (ucast (fst line)) (snd line)
        @ Generate_loop_map extended rest)"

definition Generate_map :: "image \<Rightarrow> string" where
  "Generate_map fData = Generate_loop_map 0 fData"

text \<open>\<^verbatim>\<open>IntelHex::Cipher\<close> of the second version.\<close>

fun Cipher_loop_map :: "u8 list \<Rightarrow> image \<Rightarrow> image" where
  "Cipher_loop_map state [] = []"
| "Cipher_loop_map state (line # rest) =
     (let (state', stream) = arcfour_generate_stream state (length (snd line))
      in (fst line, map (\<lambda>(d, k). d XOR k) (zip (snd line) stream))
         # Cipher_loop_map state' rest)"

definition Cipher_map :: "u8 list \<Rightarrow> image \<Rightarrow> image" where
  "Cipher_map key fData =
     (let state = arcfour_key_setup key;
          (state', stream) = arcfour_generate_stream state 256
      in Cipher_loop_map state' fData)"

text \<open>
  \<^verbatim>\<open>IntelHex::operator==\<close> is \<^verbatim>\<open>std::map\<close>'s: equal sizes and, entry by entry
  in key order, equal keys and equal vectors.
\<close>

definition IntelHex_eq_map :: "image \<Rightarrow> image \<Rightarrow> bool" where
  "IntelHex_eq_map a b =
     (length a = length b \<and> list_all2 (\<lambda>x y. fst x = fst y \<and> snd x = snd y) a b)"

section \<open>Auxiliary notions of the proofs\<close>

text \<open>
  The text of one record as both encoders write it: the colon, two upper-case digits
  for each byte, CR LF. (An auxiliary notion of the proofs, not a function of the
  source.)
\<close>

definition record_line :: "u8 list \<Rightarrow> string" where
  "record_line bs = CHR 0x3A # concat (map hex_byte bs) @ CRLF"

text \<open>The bytes \<^verbatim>\<open>HexRecord::Generate\<close> puts in its buffer (auxiliary).\<close>

definition record_bytes :: "HexRecord \<Rightarrow> u8 list" where
  "record_bytes r =
     [size_r r, ucast (drop_bit 8 (address r)), ucast (address r), type_r r] @ data r @ [checksum r]"

text \<open>The bytes \<^verbatim>\<open>WriteRecord\<close> writes, checksum included (auxiliary).\<close>

definition written_bytes :: "u8 \<Rightarrow> u16 \<Rightarrow> u8 list \<Rightarrow> u8 list" where
  "written_bytes type addr dat =
     [of_nat (length dat), ucast (drop_bit 8 addr), ucast addr, type] @ dat
     @ [- sum_list ([of_nat (length dat), ucast (drop_bit 8 addr), ucast addr, type] @ dat)]"

text \<open>
  The key of the repository's test program: \<^verbatim>\<open>(const uint8_t*)"I'm an unsafe key"\<close>
  with \<^verbatim>\<open>len = 18\<close>, the seventeen characters and the terminating zero.
\<close>

definition test_key :: "u8 list" where
  "test_key = map of_char (''I'' @ [CHR 0x27] @ ''m an unsafe key'') @ [0]"

text \<open>
  The permutation \<^verbatim>\<open>arcfour_key_setup\<close> leaves for that key, and the permutation
  after the 256 bytes that \<^verbatim>\<open>Cipher\<close> discards (both are checked against the
  functions below).
\<close>

definition test_key_state :: "u8 list" where
  "test_key_state =
    [73, 34, 217, 3, 49, 26, 113, 125, 243, 111, 196, 75, 153, 161, 98, 214, 28, 112,
     227, 219, 58, 187, 86, 236, 231, 93, 40, 147, 95, 51, 69, 164, 130, 241, 6, 82,
     209, 35, 77, 182, 189, 15, 142, 12, 61, 250, 137, 45, 246, 138, 99, 27, 202, 255,
     126, 37, 129, 10, 117, 76, 122, 56, 121, 223, 134, 21, 175, 197, 228, 59, 201,
     136, 215, 55, 29, 190, 107, 9, 148, 168, 30, 44, 54, 180, 242, 154, 16, 252, 131,
     0, 57, 210, 66, 155, 212, 110, 41, 172, 156, 133, 1, 97, 181, 68, 31, 188, 109,
     120, 160, 169, 84, 165, 183, 96, 166, 177, 207, 139, 235, 200, 173, 232, 229, 253,
     186, 91, 87, 248, 60, 90, 42, 70, 24, 123, 13, 167, 144, 249, 52, 64, 240, 36,
     108, 185, 220, 79, 89, 83, 198, 127, 174, 193, 213, 204, 199, 119, 5, 74, 178,
     221, 184, 233, 149, 171, 25, 163, 239, 62, 158, 132, 245, 101, 194, 81, 39, 14, 7,
     150, 48, 206, 100, 19, 152, 128, 254, 234, 88, 146, 103, 63, 222, 251, 72, 124,
     47, 205, 218, 170, 11, 216, 145, 157, 104, 159, 230, 32, 226, 8, 237, 71, 211, 85,
     135, 78, 20, 33, 106, 94, 38, 143, 238, 208, 118, 115, 116, 102, 151, 46, 195, 67,
     105, 114, 4, 247, 191, 22, 17, 176, 141, 224, 2, 244, 53, 162, 225, 43, 179, 18,
     192, 92, 50, 203, 65, 23, 140, 80]"

definition test_key_state_256 :: "u8 list" where
  "test_key_state_256 =
    [52, 199, 61, 250, 226, 181, 28, 118, 198, 133, 155, 189, 21, 187, 15, 40, 126, 47,
     131, 1, 178, 237, 14, 153, 136, 115, 19, 215, 209, 23, 164, 219, 135, 33, 182,
     190, 188, 196, 81, 175, 36, 228, 109, 172, 29, 200, 32, 3, 252, 114, 102, 65, 171,
     210, 99, 139, 180, 103, 111, 108, 74, 67, 9, 192, 138, 119, 83, 89, 107, 216, 117,
     42, 13, 96, 203, 242, 251, 39, 49, 238, 97, 56, 169, 221, 73, 122, 234, 225, 206,
     146, 95, 232, 12, 90, 220, 100, 112, 143, 223, 244, 224, 235, 55, 222, 31, 183,
     79, 204, 230, 24, 128, 163, 154, 70, 48, 105, 69, 229, 58, 98, 41, 194, 212, 16,
     141, 68, 64, 144, 110, 71, 77, 82, 160, 245, 213, 127, 59, 201, 157, 218, 147,
     134, 123, 165, 63, 236, 167, 137, 22, 207, 170, 179, 159, 85, 243, 176, 53, 241,
     92, 93, 158, 185, 151, 86, 145, 17, 208, 125, 195, 72, 7, 60, 193, 240, 25, 253,
     120, 104, 246, 249, 140, 124, 186, 148, 132, 214, 248, 84, 54, 149, 255, 130, 35,
     11, 75, 191, 150, 2, 166, 116, 10, 91, 205, 46, 197, 30, 168, 80, 0, 94, 173, 57,
     177, 5, 88, 162, 227, 156, 231, 106, 45, 51, 152, 202, 113, 27, 34, 101, 50, 66,
     211, 87, 174, 78, 217, 43, 26, 6, 37, 254, 129, 76, 4, 18, 247, 142, 121, 161,
     233, 62, 239, 8, 20, 38, 44, 184]"

section \<open>The end-to-end encoding scenario\<close>

text \<open>
  C7, as the specification states it: encoding the image with one data record at
  address 0 and payload 01 02, followed by the end record, gives the data line
  \<^verbatim>\<open>:0200000001020C\<close> and the end line \<^verbatim>\<open>:00000001FF\<close>, each with CR LF. Neither
  version of the encoder writes that data line: the bytes 02 00 00 00 01 02 sum to
  5, and the byte that balances them is FB.
\<close>

theorem C7_checksum_0C_counterexample:
  "Generate_map [(0, [1, 2])] \<noteq> '':0200000001020C'' @ CRLF @ '':00000001FF'' @ CRLF
   \<and> Generate_vec
        [UpdateChecksum \<lparr>size_r = 2, address = 0, type_r = 0, data = [1, 2], checksum = 0\<rparr>,
         UpdateChecksum \<lparr>size_r = 0, address = 0, type_r = 1, data = [], checksum = 0\<rparr>]
       \<noteq> '':0200000001020C'' @ CRLF @ '':00000001FF'' @ CRLF"
  by code_simp

text \<open>
  C7, amended: the data line is \<^verbatim>\<open>:020000000102FB\<close> followed by CR LF, and the end
  line is \<^verbatim>\<open>:00000001FF\<close> followed by CR LF, in the address-keyed version (which
  adds the end record itself) and in the record-list version (whose checksums are
  those \<^verbatim>\<open>UpdateChecksum\<close> computes).
\<close>

theorem C7_encode_scenario:
  "Generate_map [(0, [1, 2])] = '':020000000102FB'' @ CRLF @ '':00000001FF'' @ CRLF
   \<and> Generate_vec
        [UpdateChecksum \<lparr>size_r = 2, address = 0, type_r = 0, data = [1, 2], checksum = 0\<rparr>,
         UpdateChecksum \<lparr>size_r = 0, address = 0, type_r = 1, data = [], checksum = 0\<rparr>]
       = '':020000000102FB'' @ CRLF @ '':00000001FF'' @ CRLF"
  by code_simp

section \<open>Lines with an odd number of digits\<close>

text \<open>
  On hexadecimal digits the conversion loop never throws, so its result does not
  depend on the arguments that only serve the error report; a final CR, and a final
  unpaired digit, leave the result as it is.
\<close>

lemma hex_nibble_CR: "hex_nibble (CHR 0x0D) = None"
  by (simp add: hex_nibble_def)

lemma convert_hex_indep:
  "\<forall>h\<in>set hs. hex_nibble h \<noteq> None \<Longrightarrow>
   convert l1 line1 len1 i hs buffer cur sum8 = convert l2 line2 len2 i hs buffer cur sum8"
proof (induction hs arbitrary: i buffer cur sum8)
  case Nil
  show ?case by simp
next
  case (Cons h hs)
  then obtain m where m: "hex_nibble h = Some m" by auto
  have ih: "convert l1 line1 len1 (i + 1) hs b k s = convert l2 line2 len2 (i + 1) hs b k s"
    for b k s
    using Cons.prems by (intro Cons.IH) auto
  show ?case using m ih by (simp add: Let_def)
qed

lemma convert_CR_last:
  "\<forall>h\<in>set hs. hex_nibble h \<noteq> None \<Longrightarrow> len = i + length hs + 1 \<Longrightarrow>
   convert l line len i (hs @ [CHR 0x0D]) buffer cur sum8
     = convert l line len i hs buffer cur sum8"
proof (induction hs arbitrary: i buffer cur sum8)
  case Nil
  then show ?case by (simp add: hex_nibble_CR)
next
  case (Cons h hs)
  then obtain m where m: "hex_nibble h = Some m" by auto
  have ih: "convert l line len (i + 1) (hs @ [CHR 0x0D]) b k s = convert l line len (i + 1) hs b k s"
    for b k s
    using Cons.prems by (intro Cons.IH) auto
  show ?case using m ih by (simp add: Let_def)
qed

lemma convert_odd_digit:
  "\<forall>h\<in>set hs. hex_nibble h \<noteq> None \<Longrightarrow> hex_nibble c \<noteq> None \<Longrightarrow>
   odd i = even (length hs) \<Longrightarrow>
   convert l line len i (hs @ [c]) buffer cur sum8 = convert l line len i hs buffer cur sum8"
proof (induction hs arbitrary: i buffer cur sum8)
  case Nil
  then show ?case by auto
next
  case (Cons h hs)
  then obtain m where m: "hex_nibble h = Some m" by auto
  have ih: "convert l line len (i + 1) (hs @ [c]) b k s = convert l line len (i + 1) hs b k s"
    for b k s
    using Cons.prems by (intro Cons.IH) auto
  show ?case using m ih by (simp add: Let_def)
qed

text \<open>
  C10: a line with an odd number of hexadecimal characters after the colon is
  accepted whenever the line without its last digit is: the unpaired digit is
  written to \<^verbatim>\<open>buffer[byte]\<close> and never read, with or without a CR before the
  line feed. The lengths are the \<^verbatim>\<open>gcount() - 1\<close> of the lines when a line feed
  ends them.
\<close>

theorem C10_odd_digit_ignored:
  assumes hex: "\<forall>h\<in>set hs. hex_nibble h \<noteq> None"
    and ev: "even (length hs)"
    and c: "hex_nibble c \<noteq> None"
    and ok: "decode_line l (CHR 0x3A # hs) (length hs + 1) = Inr buffer"
  shows "decode_line l (CHR 0x3A # hs @ [c]) (length hs + 2) = Inr buffer
       \<and> decode_line l (CHR 0x3A # hs @ [c, CHR 0x0D]) (length hs + 3) = Inr buffer"
proof -
  let ?l0 = "CHR 0x3A # hs" and ?l1 = "CHR 0x3A # hs @ [c]" and ?l2 = "CHR 0x3A # hs @ [c, CHR 0x0D]"
  have hexc: "\<forall>h\<in>set (hs @ [c]). hex_nibble h \<noteq> None" using hex c by simp
  have a: "convert l ?l1 (length hs + 2) 1 (hs @ [c]) [] 0 0
      = convert l ?l0 (length hs + 1) 1 hs [] 0 0"
    using convert_odd_digit [OF hex c, of 1] ev convert_hex_indep [OF hex] by simp
  have "convert l ?l2 (length hs + 3) 1 ((hs @ [c]) @ [CHR 0x0D]) [] 0 0
      = convert l ?l2 (length hs + 3) 1 (hs @ [c]) [] 0 0"
    by (rule convert_CR_last [OF hexc]) simp
  also have "\<dots> = convert l ?l1 (length hs + 2) 1 (hs @ [c]) [] 0 0"
    by (rule convert_hex_indep [OF hexc])
  finally have b: "convert l ?l2 (length hs + 3) 1 (hs @ [c, CHR 0x0D]) [] 0 0
      = convert l ?l0 (length hs + 1) 1 hs [] 0 0"
    using a by simp
  from ok have len: "\<not> length hs + 1 < 10"
    by (auto simp: decode_line_def split: if_splits)
  from ok obtain s where
    conv: "convert l ?l0 (length hs + 1) 1 hs [] 0 0 = Inr (buffer, s)"
    and s: "s = 0" and cnt: "unat (buffer ! 0) + 5 = length buffer"
    by (auto simp: decode_line_def split: if_splits sum.splits)
  have "decode_line l ?l1 (length hs + 2) = Inr buffer"
    using len a conv s cnt by (simp add: decode_line_def)
  moreover have "decode_line l ?l2 (length hs + 3) = Inr buffer"
    using len b conv s cnt by (simp add: decode_line_def)
  ultimately show ?thesis by simp
qed

text \<open>
  The line \<^verbatim>\<open>:00000001FFF\<close> is decoded as the end-of-file record, and both
  versions of \<^verbatim>\<open>Parse\<close> accept the file made of it.
\<close>

theorem C10_odd_digit_witness:
  "decode_line 1 '':00000001FFF'' 12 = Inr [0, 0, 0, 1, 0xFF]
   \<and> decode_line 1 ('':00000001FFF'' @ [CHR 0x0D]) 13 = Inr [0, 0, 0, 1, 0xFF]
   \<and> Parse_map ('':00000001FFF'' @ CRLF) = Inr []
   \<and> Parse_vec ('':00000001FFF'' @ CRLF)
       = Inr [\<lparr>size_r = 0, address = 0, type_r = 1, data = [], checksum = 0xFF\<rparr>]"
proof -
  have hex: "\<forall>h\<in>set ''00000001FF''. hex_nibble h \<noteq> None"
    by (simp add: hex_nibble_def)
  have c: "hex_nibble CHR ''F'' \<noteq> None"
    by (simp add: hex_nibble_def)
  have ok: "decode_line 1 (CHR 0x3A # ''00000001FF'') (length ''00000001FF'' + 1) = Inr [0, 0, 0, 1, 0xFF]"
    by code_simp
  have ev: "even (length ''00000001FF'')"
    by simp
  have e: "length ''00000001FF'' + 2 = 12" "length ''00000001FF'' + 3 = 13"
    by simp_all
  have "decode_line 1 '':00000001FFF'' 12 = Inr [0, 0, 0, 1, 0xFF]
      \<and> decode_line 1 ('':00000001FFF'' @ [CHR 0x0D]) 13 = Inr [0, 0, 0, 1, 0xFF]"
    using C10_odd_digit_ignored [OF hex ev c ok, unfolded e] by simp
  moreover have "Parse_map ('':00000001FFF'' @ CRLF) = Inr []"
    by code_simp
  moreover have "Parse_vec ('':00000001FFF'' @ CRLF)
       = Inr [\<lparr>size_r = 0, address = 0, type_r = 1, data = [], checksum = 0xFF\<rparr>]"
    by code_simp
  ultimately show ?thesis by simp
qed


section \<open>The sum of the decoded bytes\<close>

text \<open>The sum the conversion loop returns is the sum of the bytes it returns.\<close>

lemma convert_sum:
  "convert l line len i cs buffer cur sum8 = Inr (buffer', sum8') \<Longrightarrow>
   \<exists>ext. buffer' = buffer @ ext \<and> sum8' = sum8 + sum_list ext"
proof (induction cs arbitrary: i buffer cur sum8)
  case Nil
  then show ?case by simp
next
  case (Cons c cs)
  show ?case
  proof (cases "hex_nibble c")
    case None
    with Cons.prems show ?thesis by (simp split: if_splits)
  next
    case (Some n)
    show ?thesis
    proof (cases "odd i")
      case True
      with Some Cons.prems Cons.IH show ?thesis by simp
    next
      case False
      let ?b = "push_bit 4 cur OR n"
      from False Some Cons.prems
      have "convert l line len (i + 1) cs (buffer @ [?b]) ?b (sum8 + ?b) = Inr (buffer', sum8')"
        by (simp add: Let_def)
      from Cons.IH [OF this] obtain ext where
        "buffer' = (buffer @ [?b]) @ ext" "sum8' = sum8 + ?b + sum_list ext" by blast
      then have "buffer' = buffer @ (?b # ext) \<and> sum8' = sum8 + sum_list (?b # ext)"
        by (simp add: add.assoc)
      then show ?thesis by blast
    qed
  qed
qed

lemma convert_sum_list:
  "convert l line len i cs [] cur 0 = Inr (buffer, sum8) \<Longrightarrow> sum8 = sum_list buffer"
  by (drule convert_sum) auto

section \<open>Duplicate addresses in the address-keyed image\<close>

text \<open>
  \<open>map_insert\<close> keeps the keys strictly ascending, leaves the image as it is when
  the key is present, and adds the entry when it is absent.
\<close>

lemma map_insert_set:
  "fst ` set (map_insert record m) = insert (fst record) (fst ` set m)"
  by (induction m) auto

lemma map_insert_sorted:
  "sorted_wrt (<) (map fst m) \<Longrightarrow> sorted_wrt (<) (map fst (map_insert record m))"
proof (induction m)
  case Nil
  then show ?case by simp
next
  case (Cons e es)
  then have es: "sorted_wrt (<) (map fst (map_insert record es))" by simp
  from Cons.prems have le: "\<forall>x\<in>set es. fst e < fst x" by auto
  have "\<forall>k\<in>fst ` set (map_insert record es). fst e < k" if "fst e < fst record"
    using le that by (auto simp: map_insert_set)
  with Cons.prems es show ?case by (auto simp: not_less)
qed

lemma map_insert_present:
  "sorted_wrt (<) (map fst m) \<Longrightarrow> map_of m (fst record) = Some q \<Longrightarrow> map_insert record m = m"
proof (induction m)
  case Nil
  then show ?case by simp
next
  case (Cons e es)
  show ?case
  proof (cases "fst record = fst e")
    case True
    then show ?thesis by simp
  next
    case False
    with Cons.prems have q: "map_of es (fst record) = Some q"
      by (cases e) (auto split: if_splits)
    then have "fst record \<in> fst ` set es"
      by (metis domI dom_map_of_conv_image_fst)
    with Cons.prems have "fst e < fst record" by auto
    with Cons.prems Cons.IH q False show ?thesis by auto
  qed
qed

lemma map_insert_absent:
  "map_of m (fst record) = None \<Longrightarrow>
   map_of (map_insert record m) = (map_of m)(fst record \<mapsto> snd record)"
proof (induction m)
  case Nil
  then show ?case by (cases "record") simp
next
  case (Cons e es)
  then show ?case by (cases e; cases "record") (auto split: if_splits simp: fun_upd_twist)
qed

text \<open>
  C9, as the specification states it: of two data records with the same absolute
  address, one overwrites the other, as a map assignment would, so that the later
  payload [3, 4] is the stored one. \<^verbatim>\<open>std::map::insert\<close> does not assign to an
  existing key: the image keeps [1, 2].
\<close>

theorem C9_overwrite_counterexample:
  "Parse_map ('':020000000102FB'' @ CRLF @ '':020000000304F7'' @ CRLF @ '':00000001FF'' @ CRLF)
     = Inr [(0, [1, 2])]
   \<and> Parse_map ('':020000000102FB'' @ CRLF @ '':020000000304F7'' @ CRLF @ '':00000001FF'' @ CRLF)
     \<noteq> Inr [(0, [3, 4])]"
  by code_simp

text \<open>
  C9, amended: when a data record is decoded whose absolute address already has an
  entry, the record is dropped without an error: the loop goes on to the next line
  with the image unchanged, so the payload stored first stays.
\<close>

theorem C9_duplicate_dropped:
  assumes rd: "read_line input = Inr (line, len, rest)"
    and dec: "decode_line l line len = Inr buffer"
    and ty: "buffer ! 3 = 0"
    and srt: "sorted_wrt (<) (map fst fData)"
    and dup: "map_of fData (extended OR ucast (push_bit 8 (ucast (buffer ! 1)) OR ucast (buffer ! 2) :: u16))
              = Some q"
  shows "Parse_loop_map l extended fData input = Parse_loop_map (l + 1) extended fData rest"
proof -
  let ?rec = "(extended OR ucast (push_bit 8 (ucast (buffer ! 1)) OR ucast (buffer ! 2) :: u16),
               take (unat (buffer ! 0)) (drop 4 buffer))"
  from dup have "map_of fData (fst ?rec) = Some q" by simp
  from map_insert_present [OF srt this] have "map_insert ?rec fData = fData" .
  then show ?thesis
    by (subst Parse_loop_map.simps) (simp add: rd dec ty Let_def)
qed

text \<open>The second data line of the file above is dropped so.\<close>

theorem C9_duplicate_dropped_witness:
  "Parse_loop_map 2 0 [(0, [1, 2])] ('':020000000304F7'' @ CRLF @ '':00000001FF'' @ CRLF)
     = Parse_loop_map 3 0 [(0, [1, 2])] ('':00000001FF'' @ CRLF)
   \<and> Parse_loop_map 3 0 [(0, [1, 2])] ('':00000001FF'' @ CRLF) = Inr [(0, [1, 2])]"
proof -
  let ?line = "'':020000000304F7'' @ [CHR 0x0D]"
  have rd: "read_line ('':020000000304F7'' @ CRLF @ '':00000001FF'' @ CRLF)
      = Inr (?line, 16, '':00000001FF'' @ CRLF)"
    by code_simp
  have dec: "decode_line 2 ?line 16 = Inr [2, 0, 0, 0, 3, 4, 0xF7]"
    by code_simp
  have ty: "[2, 0, 0, 0, 3, 4, 0xF7 :: u8] ! 3 = 0"
    by simp
  have srt: "sorted_wrt (<) (map fst [(0 :: u32, [1, 2 :: u8])])"
    by simp
  have dup: "map_of [(0 :: u32, [1, 2 :: u8])]
      (0 OR ucast (push_bit 8 (ucast ([2, 0, 0, 0, 3, 4, 0xF7 :: u8] ! 1))
                   OR ucast ([2, 0, 0, 0, 3, 4, 0xF7 :: u8] ! 2) :: u16)) = Some [1, 2]"
    by simp
  have "Parse_loop_map 3 0 [(0, [1, 2])] ('':00000001FF'' @ CRLF) = Inr [(0, [1, 2])]"
    by code_simp
  with C9_duplicate_dropped [OF rd dec ty srt dup] show ?thesis
    by simp
qed

section \<open>Equality of images\<close>

text \<open>
  In the address-keyed version the comparison is the equality of the two images:
  the same keys with the same payloads.
\<close>

lemma IntelHex_eq_map_iff: "IntelHex_eq_map a b \<longleftrightarrow> a = b"
proof -
  have "list_all2 (\<lambda>x y. fst x = fst y \<and> snd x = snd y) a b \<longleftrightarrow> list_all2 (=) a b"
    by (rule arg_cong [where f = "\<lambda>P. list_all2 P a b"]) (intro ext, auto simp: prod_eq_iff)
  then show ?thesis
    by (auto simp: IntelHex_eq_map_def list_all2_eq [symmetric] dest: list_all2_lengthD)
qed

text \<open>
  C8 says that two images of the record-list version are equal only when their
  records agree on the payload bytes too. \<^verbatim>\<open>HexRecord::operator==\<close> does not look
  at \<^verbatim>\<open>data\<close>: the images decoded from two files with the payloads 01 02 and
  02 01, which have the same checksum, compare equal.
\<close>

theorem C8_eq_ignores_payload:
  "Parse_vec ('':020000000102FB'' @ CRLF @ '':00000001FF'' @ CRLF)
     = Inr [\<lparr>size_r = 2, address = 0, type_r = 0, data = [1, 2], checksum = 0xFB\<rparr>,
            \<lparr>size_r = 0, address = 0, type_r = 1, data = [], checksum = 0xFF\<rparr>]
   \<and> Parse_vec ('':020000000201FB'' @ CRLF @ '':00000001FF'' @ CRLF)
     = Inr [\<lparr>size_r = 2, address = 0, type_r = 0, data = [2, 1], checksum = 0xFB\<rparr>,
            \<lparr>size_r = 0, address = 0, type_r = 1, data = [], checksum = 0xFF\<rparr>]
   \<and> IntelHex_eq_vec
        [\<lparr>size_r = 2, address = 0, type_r = 0, data = [1, 2], checksum = 0xFB\<rparr>,
         \<lparr>size_r = 0, address = 0, type_r = 1, data = [], checksum = 0xFF\<rparr>]
        [\<lparr>size_r = 2, address = 0, type_r = 0, data = [2, 1], checksum = 0xFB\<rparr>,
         \<lparr>size_r = 0, address = 0, type_r = 1, data = [], checksum = 0xFF\<rparr>]
   \<and> [1, 2] \<noteq> [2, 1 :: u8]"
  by code_simp

section \<open>Reading back what the encoder writes\<close>

text \<open>
  Each digit \<open>hex_char\<close> writes is read back by \<open>hex_nibble\<close> as the nibble it
  came from, so the conversion loop turns the digits of a list of bytes into that
  list.
\<close>

lemma nibble_cases:
  fixes n :: u8
  assumes "n < 16"
  shows "n \<in> set (map of_nat [0..<16])"
proof -
  from assms have "unat n < 16" by (simp add: word_less_nat_alt)
  then have "unat n \<in> set [0..<16]" by simp
  then have "of_nat (unat n) \<in> (of_nat :: nat \<Rightarrow> u8) ` set [0..<16]" by (rule imageI)
  then show ?thesis by simp
qed

lemma hex_nibble_hex_char_all:
  "\<forall>n\<in>set (map of_nat [0..<16]). hex_nibble (hex_char n) = Some n"
  by code_simp

lemma hex_nibble_hex_char: "n < 16 \<Longrightarrow> hex_nibble (hex_char n) = Some n"
  using hex_nibble_hex_char_all nibble_cases by blast

lemma high_nibble_less: "drop_bit 4 (b :: u8) < 16"
proof -
  have "unat b < 256" using unsigned_less [of b, where ?'a = nat] by simp
  then have "unat b div 16 < 16" by simp
  then show ?thesis by (simp add: word_less_nat_alt unat_drop_bit_eq drop_bit_eq_div unat_div)
qed

lemma low_nibble_less: "(b :: u8) AND 0xF < 16"
proof -
  have "b AND 0xF \<le> 0xF" by (rule word_and_le1)
  then show ?thesis by (simp add: word_le_nat_alt word_less_nat_alt)
qed

lemma nibbles_join: "push_bit 4 (drop_bit 4 b) OR (b AND 0xF) = (b :: u8)"
proof -
  have "(0xF :: u8) = mask 4" by (simp add: mask_eq_exp_minus_1)
  then have "b AND 0xF = take_bit 4 b" by (simp add: take_bit_eq_mask)
  then show ?thesis
    by (simp add: bit_eq_iff bit_simps) (auto simp: not_less)
qed

lemma convert_hex_bytes:
  "odd i \<Longrightarrow>
   convert l line len i (concat (map hex_byte bs)) buffer cur sum8
     = Inr (buffer @ bs, sum8 + sum_list bs)"
proof (induction bs arbitrary: i buffer cur sum8)
  case Nil
  show ?case by simp
next
  case (Cons b bs)
  have "odd (i + 1 + 1)" using Cons.prems by simp
  from Cons.IH [OF this] Cons.prems show ?case
    by (simp add: hex_byte_def hex_nibble_hex_char high_nibble_less low_nibble_less
        nibbles_join add.assoc)
qed

lemma hex_bytes_are_hex: "\<forall>h\<in>set (concat (map hex_byte bs)). hex_nibble h \<noteq> None"
  by (auto simp: hex_byte_def hex_nibble_hex_char high_nibble_less low_nibble_less)

lemma length_hex_bytes: "length (concat (map hex_byte bs)) = 2 * length bs"
  by (induction bs) (simp_all add: hex_byte_def)

lemma hex_nibble_LF: "hex_nibble (CHR 0x0A) = None"
  by (simp add: hex_nibble_def)


text \<open>\<^verbatim>\<open>getline\<close> on a line that a line feed ends.\<close>

lemma getline_line:
  "CHR 0x0A \<notin> set line \<Longrightarrow>
   getline k (line @ CHR 0x0A # rest)
     = (if length line \<le> k then Some (line, length line + 1, rest) else None)"
proof (induction line arbitrary: k)
  case Nil
  show ?case by simp
next
  case (Cons c cs)
  then have "c \<noteq> CHR 0x0A" and "CHR 0x0A \<notin> set cs" by auto
  with Cons.IH [of "k - 1"] show ?case by (cases k) auto
qed

lemma LF_notin_hex_bytes: "CHR 0x0A \<notin> set (concat (map hex_byte bs))"
  using hex_bytes_are_hex [of bs] hex_nibble_LF by blast

lemma read_line_record:
  "read_line (record_line bs @ rest)
     = (if length bs \<le> 511 then Inr (CHR 0x3A # concat (map hex_byte bs) @ [CHR 0x0D], 2 * length bs + 2, rest)
        else Inl IoFailure)"
proof -
  let ?line = "CHR 0x3A # concat (map hex_byte bs) @ [CHR 0x0D]"
  have nl: "CHR 0x0A \<notin> set ?line"
    using LF_notin_hex_bytes [of bs] by simp
  have eq: "record_line bs @ rest = ?line @ CHR 0x0A # rest"
    by (simp add: record_line_def CRLF_def)
  have len: "length ?line = 2 * length bs + 2"
    by (simp add: length_hex_bytes)
  show ?thesis
    unfolding read_line_def eq getline_line [OF nl] len by auto
qed

lemma convert_record:
  "convert l line (2 * length bs + 2) 1 (concat (map hex_byte bs) @ [CHR 0x0D]) [] 0 0
     = Inr (bs, sum_list bs)"
proof -
  have "convert l line (2 * length bs + 2) 1 (concat (map hex_byte bs) @ [CHR 0x0D]) [] 0 0
      = convert l line (2 * length bs + 2) 1 (concat (map hex_byte bs)) [] 0 0"
    by (rule convert_CR_last [OF hex_bytes_are_hex]) (simp add: length_hex_bytes)
  then show ?thesis by (simp add: convert_hex_bytes)
qed

lemma decode_line_record:
  "decode_line l (CHR 0x3A # concat (map hex_byte bs) @ [CHR 0x0D]) (2 * length bs + 2)
     = (if length bs < 4 then Inl (ParseError l 0 msg_too_short (c_str (CHR 0x3A # concat (map hex_byte bs) @ [CHR 0x0D])))
        else if sum_list bs \<noteq> 0 then Inl (ParseError l (2 * length bs) ''checksum error'' (c_str (CHR 0x3A # concat (map hex_byte bs) @ [CHR 0x0D])))
        else if unat (bs ! 0) + 5 \<noteq> length bs then Inl (ParseError l 2 ''mismatched length'' (c_str (CHR 0x3A # concat (map hex_byte bs) @ [CHR 0x0D])))
        else Inr bs)"
proof -
  let ?line = "CHR 0x3A # concat (map hex_byte bs) @ [CHR 0x0D]"
  have "drop 1 (take (2 * length bs + 2) ?line) = concat (map hex_byte bs) @ [CHR 0x0D]"
    by (simp add: length_hex_bytes)
  then have "convert l ?line (2 * length bs + 2) 1 (drop 1 (take (2 * length bs + 2) ?line)) [] 0 0
      = Inr (bs, sum_list bs)"
    by (simp only: convert_record)
  then show ?thesis
    unfolding decode_line_def by auto
qed


text \<open>
  What the two encoders write for one record: \<^verbatim>\<open>WriteRecord\<close> closes the line with
  the negated sum of the bytes before it, \<^verbatim>\<open>HexRecord::Generate\<close> with the stored
  checksum.
\<close>

lemma write_loop_sum:
  "length pre = len + 4 \<Longrightarrow> i \<le> len + 4 \<Longrightarrow> k = len + 4 - i \<Longrightarrow>
   write_loop len i (pre @ [x])
     = concat (map hex_byte (drop i pre)) @ hex_byte (x - sum_list (drop i pre))"
proof (induction k arbitrary: i x)
  case 0
  then have i: "i = len + 4" by simp
  have "write_loop len (len + 4) (pre @ [x]) = hex_byte x"
    using "0.prems"(1)
    by (subst write_loop.simps, subst write_loop.simps) (simp add: nth_append)
  with i "0.prems"(1) show ?case by simp
next
  case (Suc k)
  then have i: "i < len + 4" by simp
  have upd: "(pre @ [x])[len + 4 := x - pre ! i] = pre @ [x - pre ! i]"
    using Suc.prems(1) by (simp add: list_update_append)
  have dr: "drop i pre = pre ! i # drop (i + 1) pre"
    using Suc.prems(1) i by (simp add: Cons_nth_drop_Suc)
  have "write_loop len (i + 1) (pre @ [x - pre ! i])
      = concat (map hex_byte (drop (i + 1) pre))
        @ hex_byte (x - pre ! i - sum_list (drop (i + 1) pre))"
    using Suc.prems by (intro Suc.IH) auto
  then show ?case
    using i Suc.prems(1)
    by (subst write_loop.simps) (simp add: upd dr nth_append diff_diff_eq)
qed

lemma WriteRecord_line:
  "WriteRecord type addr dat
     = record_line ([of_nat (length dat), ucast (drop_bit 8 addr), ucast addr, type] @ dat
                    @ [- sum_list ([of_nat (length dat), ucast (drop_bit 8 addr), ucast addr, type] @ dat)])"
proof -
  let ?pre = "[of_nat (length dat), ucast (drop_bit 8 addr), ucast addr, type] @ dat"
  have "write_loop (length dat) 0 (?pre @ [0])
      = concat (map hex_byte (drop 0 ?pre)) @ hex_byte (0 - sum_list (drop 0 ?pre))"
    by (rule write_loop_sum) simp_all
  then show ?thesis
    by (simp add: WriteRecord_def record_line_def Let_def)
qed

lemma HexRecord_Generate_line:
  "unat (size_r r) = length (data r) \<Longrightarrow> HexRecord_Generate r = record_line (record_bytes r)"
  by (simp add: HexRecord_Generate_def record_line_def record_bytes_def map_nth)

lemma address_bytes:
  "ucast (drop_bit 8 (push_bit 8 (ucast (h :: u8)) OR ucast (lo :: u8) :: u16)) = h"
  "ucast (push_bit 8 (ucast (h :: u8)) OR ucast (lo :: u8) :: u16) = lo"
  by (rule bit_word_eqI, auto simp: bit_simps dest: bit_imp_le_length)+

lemma record_bytes_new:
  assumes "unat (bs ! 0) + 5 = length bs"
  shows "record_bytes (HexRecord_new bs) = bs"
    and "unat (size_r (HexRecord_new bs)) = length (data (HexRecord_new bs))"
proof -
  let ?n = "unat (bs ! 0)"
  have len: "length (drop 4 bs) = Suc ?n"
    using assms by simp
  have "take 4 bs = [bs ! 0, bs ! 1, bs ! 2, bs ! 3]"
    using assms [symmetric] by (simp add: eval_nat_numeral take_Suc_conv_app_nth)
  moreover have "take (Suc ?n) (drop 4 bs) = take ?n (drop 4 bs) @ [drop 4 bs ! ?n]"
    using len by (intro take_Suc_conv_app_nth) simp
  then have "drop 4 bs = take ?n (drop 4 bs) @ [bs ! (?n + 4)]"
    using len assms by (simp add: add.commute)
  moreover have "bs = take 4 bs @ drop 4 bs"
    by simp
  ultimately have bs: "bs = [bs ! 0, bs ! 1, bs ! 2, bs ! 3] @ take ?n (drop 4 bs) @ [bs ! (?n + 4)]"
    by metis
  have hi: "ucast (drop_bit 8 (address (HexRecord_new bs))) = bs ! 1"
    unfolding HexRecord_new_def HexRecord.select_convs by (rule address_bytes(1))
  have lo: "ucast (address (HexRecord_new bs)) = bs ! 2"
    unfolding HexRecord_new_def HexRecord.select_convs by (rule address_bytes(2))
  have rest: "size_r (HexRecord_new bs) = bs ! 0" "type_r (HexRecord_new bs) = bs ! 3"
    "data (HexRecord_new bs) = take ?n (drop 4 bs)" "checksum (HexRecord_new bs) = bs ! (?n + 4)"
    by (simp_all add: HexRecord_new_def)
  have "record_bytes (HexRecord_new bs)
      = [bs ! 0, bs ! 1, bs ! 2, bs ! 3] @ take ?n (drop 4 bs) @ [bs ! (?n + 4)]"
    by (simp add: record_bytes_def hi lo rest)
  also have "\<dots> = bs"
    by (rule bs [symmetric])
  finally show "record_bytes (HexRecord_new bs) = bs" .
  show "unat (size_r (HexRecord_new bs)) = length (data (HexRecord_new bs))"
    using assms by (simp add: HexRecord_new_def)
qed


text \<open>
  The record-list \<^verbatim>\<open>Parse\<close> on a file of such lines: a file it accepts, every line
  of which it decodes, is what \<^verbatim>\<open>Generate\<close> writes for the image.
\<close>

lemma Parse_loop_vec_step:
  "read_line input = Inr (line, len, rest) \<Longrightarrow> decode_line l line len = Inr buffer \<Longrightarrow>
   Parse_loop_vec l acc input
     = (if type_r (HexRecord_new buffer) = 1 then Inr (acc @ [HexRecord_new buffer])
        else Parse_loop_vec (l + 1) (acc @ [HexRecord_new buffer]) rest)"
  by (subst Parse_loop_vec.simps) (simp add: Let_def)

lemma Parse_loop_vec_fail:
  "read_line input = Inl e \<Longrightarrow> Parse_loop_vec l acc input = Inl e"
  "read_line input = Inr (line, len, rest) \<Longrightarrow> decode_line l line len = Inl e \<Longrightarrow>
   Parse_loop_vec l acc input = Inl e"
  by (subst Parse_loop_vec.simps, simp)+

lemma decode_line_record_Inr:
  assumes "decode_line l (CHR 0x3A # concat (map hex_byte bs) @ [CHR 0x0D]) (2 * length bs + 2)
           = Inr buffer"
  shows "buffer = bs" and "unat (bs ! 0) + 5 = length bs" and "sum_list bs = 0"
  using assms unfolding decode_line_record by (auto split: if_splits)

lemma Parse_loop_vec_record_line:
  assumes "Parse_loop_vec l acc (record_line bs @ rest) = Inr I"
  shows "unat (bs ! 0) + 5 = length bs"
    and "Parse_loop_vec l acc (record_line bs @ rest)
         = (if type_r (HexRecord_new bs) = 1 then Inr (acc @ [HexRecord_new bs])
            else Parse_loop_vec (l + 1) (acc @ [HexRecord_new bs]) rest)"
proof -
  let ?line = "CHR 0x3A # concat (map hex_byte bs) @ [CHR 0x0D]"
  have rd: "read_line (record_line bs @ rest) = Inr (?line, 2 * length bs + 2, rest)"
  proof (cases "length bs \<le> 511")
    case True
    then show ?thesis unfolding read_line_record by simp
  next
    case False
    then have "read_line (record_line bs @ rest) = Inl IoFailure"
      unfolding read_line_record by simp
    from Parse_loop_vec_fail(1) [OF this] assms show ?thesis by simp
  qed
  obtain buffer where dec: "decode_line l ?line (2 * length bs + 2) = Inr buffer"
  proof (cases "decode_line l ?line (2 * length bs + 2)")
    case (Inl e)
    from Parse_loop_vec_fail(2) [OF rd this] assms show ?thesis by simp
  next
    case (Inr buffer)
    then show ?thesis by (rule that)
  qed
  note d = decode_line_record_Inr [OF dec]
  show "unat (bs ! 0) + 5 = length bs" by (rule d)
  show "Parse_loop_vec l acc (record_line bs @ rest)
         = (if type_r (HexRecord_new bs) = 1 then Inr (acc @ [HexRecord_new bs])
            else Parse_loop_vec (l + 1) (acc @ [HexRecord_new bs]) rest)"
    using Parse_loop_vec_step [OF rd dec] d(1) by simp
qed

lemma Parse_loop_vec_lines:
  "Parse_loop_vec l acc (concat (map record_line bss)) = Inr I \<Longrightarrow>
   length I = length acc + length bss \<Longrightarrow>
   Generate_vec I = Generate_vec acc @ concat (map record_line bss)"
proof (induction bss arbitrary: l acc)
  case Nil
  then show ?case
    by (subst (asm) Parse_loop_vec.simps) (simp add: read_line_def)
next
  case (Cons bs bss)
  let ?r = "HexRecord_new bs"
  from Cons.prems(1) have p: "Parse_loop_vec l acc (record_line bs @ concat (map record_line bss)) = Inr I"
    by simp
  note st = Parse_loop_vec_record_line [OF p]
  have g: "HexRecord_Generate ?r = record_line bs"
    using record_bytes_new [OF st(1)] by (simp add: HexRecord_Generate_line)
  show ?case
  proof (cases "type_r ?r = 1")
    case True
    with st(2) p have I: "I = acc @ [?r]" by simp
    with Cons.prems(2) have "bss = []" by simp
    with I g show ?thesis by (simp add: Generate_vec_def)
  next
    case False
    with st(2) p have "Parse_loop_vec (l + 1) (acc @ [?r]) (concat (map record_line bss)) = Inr I"
      by simp
    from Cons.IH [OF this] Cons.prems(2) g show ?thesis
      by (simp add: Generate_vec_def)
  qed
qed


text \<open>
  The address-keyed \<^verbatim>\<open>Parse\<close>: one turn of its loop for each type of record, and
  the turn on a line that \<^verbatim>\<open>WriteRecord\<close> wrote.
\<close>

lemma Parse_loop_map_data:
  "read_line input = Inr (line, len, rest) \<Longrightarrow> decode_line l line len = Inr buffer \<Longrightarrow>
   buffer ! 3 = 0 \<Longrightarrow>
   Parse_loop_map l extended fData input
     = Parse_loop_map (l + 1) extended
         (map_insert (extended OR ucast (push_bit 8 (ucast (buffer ! 1)) OR ucast (buffer ! 2) :: u16),
                      take (unat (buffer ! 0)) (drop 4 buffer)) fData) rest"
  by (subst Parse_loop_map.simps) (simp add: Let_def)

lemma Parse_loop_map_eof:
  "read_line input = Inr (line, len, rest) \<Longrightarrow> decode_line l line len = Inr buffer \<Longrightarrow>
   buffer ! 3 = 1 \<Longrightarrow> buffer ! 0 = 0 \<Longrightarrow>
   Parse_loop_map l extended fData input = Inr fData"
  by (subst Parse_loop_map.simps) (simp add: Let_def)

lemma Parse_loop_map_extended:
  "read_line input = Inr (line, len, rest) \<Longrightarrow> decode_line l line len = Inr buffer \<Longrightarrow>
   buffer ! 3 = 4 \<Longrightarrow> buffer ! 0 = 2 \<Longrightarrow>
   Parse_loop_map l extended fData input
     = Parse_loop_map (l + 1) (push_bit 24 (ucast (buffer ! 4)) OR push_bit 16 (ucast (buffer ! 5)))
         fData rest"
  by (subst Parse_loop_map.simps) (simp add: Let_def)

lemma WriteRecord_read:
  assumes "length dat \<le> 255"
  shows "read_line (WriteRecord type addr dat @ rest)
           = Inr (CHR 0x3A # concat (map hex_byte (written_bytes type addr dat)) @ [CHR 0x0D],
                  2 * length (written_bytes type addr dat) + 2, rest)"
    and "decode_line l (CHR 0x3A # concat (map hex_byte (written_bytes type addr dat)) @ [CHR 0x0D])
           (2 * length (written_bytes type addr dat) + 2) = Inr (written_bytes type addr dat)"
proof -
  let ?bs = "written_bytes type addr dat"
  have w: "WriteRecord type addr dat = record_line ?bs"
    unfolding written_bytes_def by (rule WriteRecord_line)
  have len: "length ?bs = length dat + 5"
    by (simp add: written_bytes_def)
  show "read_line (WriteRecord type addr dat @ rest)
           = Inr (CHR 0x3A # concat (map hex_byte ?bs) @ [CHR 0x0D], 2 * length ?bs + 2, rest)"
    unfolding w read_line_record using assms(1) len by simp
  have s: "sum_list ?bs = 0"
    by (simp add: written_bytes_def)
  have "unat (of_nat (length dat) :: u8) = length dat"
    using assms(1) by (simp add: unat_of_nat)
  then have c: "unat (?bs ! 0) + 5 = length ?bs"
    by (simp add: written_bytes_def)
  show "decode_line l (CHR 0x3A # concat (map hex_byte ?bs) @ [CHR 0x0D]) (2 * length ?bs + 2) = Inr ?bs"
    unfolding decode_line_record using s c len by simp
qed

lemma u16_bytes: "push_bit 8 (ucast (ucast (drop_bit 8 a) :: u8)) OR ucast (ucast a :: u8) = (a :: u16)"
  by (rule bit_word_eqI) (auto simp: bit_simps)

lemma Parse_loop_map_WriteRecord_data:
  assumes "length dat \<le> 255"
  shows "Parse_loop_map l extended fData (WriteRecord 0 addr dat @ rest)
     = Parse_loop_map (l + 1) extended (map_insert (extended OR ucast addr, dat) fData) rest"
proof -
  have "unat (of_nat (length dat) :: u8) = length dat"
    using assms(1) by (simp add: unat_of_nat)
  then show ?thesis
    by (subst Parse_loop_map_data [OF WriteRecord_read [OF assms]])
       (simp_all add: u16_bytes written_bytes_def)
qed

lemma Parse_loop_map_WriteRecord_eof:
  "Parse_loop_map l extended fData (WriteRecord 1 0 [] @ rest) = Inr fData"
  by (subst Parse_loop_map_eof [OF WriteRecord_read]) (simp_all add: written_bytes_def)

lemma Parse_loop_map_WriteRecord_extended:
  "Parse_loop_map l extended fData (WriteRecord 4 0 [b0, b1] @ rest)
     = Parse_loop_map (l + 1) (push_bit 24 (ucast b0) OR push_bit 16 (ucast b1)) fData rest"
  by (subst Parse_loop_map_extended [OF WriteRecord_read]) (simp_all add: written_bytes_def)


text \<open>
  Decoding what the address-keyed \<^verbatim>\<open>Generate\<close> writes inserts the entries again,
  in the same order; and every image \<^verbatim>\<open>Parse\<close> returns has strictly ascending keys
  and payloads of at most 255 bytes.
\<close>

lemma bank_mask: "(0xffff0000 :: u32) = push_bit 16 (mask 16)"
  by (simp add: mask_eq_exp_minus_1)

lemma bank_of_bytes:
  "push_bit 24 (ucast (ucast (drop_bit 24 k) :: u8)) OR push_bit 16 (ucast (ucast (drop_bit 16 k) :: u8))
     = (k AND 0xffff0000 :: u32)"
  unfolding bank_mask by (rule bit_word_eqI) (auto simp: bit_simps)

lemma bank_or_offset: "(k AND 0xffff0000) OR ucast (ucast k :: u16) = (k :: u32)"
  unfolding bank_mask by (rule bit_word_eqI) (auto simp: bit_simps)

lemma Parse_loop_map_Generate:
  "\<forall>e\<in>set m. length (snd e) \<le> 255 \<Longrightarrow>
   Parse_loop_map l extended fData (Generate_loop_map extended m @ rest)
     = Inr (foldl (\<lambda>a r. map_insert r a) fData m)"
proof (induction m arbitrary: l extended fData)
  case Nil
  show ?case by (simp add: Parse_loop_map_WriteRecord_eof)
next
  case (Cons e m)
  obtain k p where e: "e = (k, p)" by (cases e)
  with Cons.prems have p: "length p \<le> 255" and m: "\<forall>e\<in>set m. length (snd e) \<le> 255"
    by auto
  show ?case
  proof (cases "(k AND 0xffff0000) = extended")
    case True
    then have "extended OR ucast (ucast k :: u16) = k"
      using bank_or_offset [of k] by simp
    with True show ?thesis
      by (simp add: e Parse_loop_map_WriteRecord_data [OF p] Cons.IH [OF m])
  next
    case False
    then show ?thesis
      by (simp add: e Parse_loop_map_WriteRecord_extended Parse_loop_map_WriteRecord_data [OF p]
          bank_of_bytes bank_or_offset Cons.IH [OF m])
  qed
qed

lemma map_insert_last:
  "\<forall>x\<in>set m. fst x < fst r \<Longrightarrow> map_insert r m = m @ [r]"
  by (induction m) auto

lemma foldl_map_insert_sorted:
  "sorted_wrt (<) (map fst (acc @ m)) \<Longrightarrow> foldl (\<lambda>a r. map_insert r a) acc m = acc @ m"
proof (induction m arbitrary: acc)
  case Nil
  show ?case by simp
next
  case (Cons e m)
  from Cons.prems have "\<forall>x\<in>set acc. fst x < fst e"
    by (auto simp: sorted_wrt_append)
  then have "map_insert e acc = acc @ [e]" by (rule map_insert_last)
  with Cons.IH [of "acc @ [e]"] Cons.prems show ?case by simp
qed

lemma map_insert_subset: "set (map_insert r m) \<subseteq> insert r (set m)"
  by (induction m) auto

lemma Parse_loop_map_invariant:
  "Parse_loop_map l extended fData input = Inr m \<Longrightarrow>
   sorted_wrt (<) (map fst fData) \<Longrightarrow> \<forall>e\<in>set fData. length (snd e) \<le> 255 \<Longrightarrow>
   sorted_wrt (<) (map fst m) \<and> (\<forall>e\<in>set m. length (snd e) \<le> 255)"
proof (induction "length input" arbitrary: l extended fData input rule: less_induct)
  case less
  from less.prems(1) obtain line len rest buffer where
    rd: "read_line input = Inr (line, len, rest)" and dec: "decode_line l line len = Inr buffer"
    by (subst (asm) Parse_loop_map.simps) (auto split: sum.splits)
  let ?rec = "(extended OR ucast (push_bit 8 (ucast (buffer ! 1)) OR ucast (buffer ! 2) :: u16),
               take (unat (buffer ! 0)) (drop 4 buffer))"
  consider (data) "buffer ! 3 = 0" | (eof) "buffer ! 3 = 1" | (ext) "buffer ! 3 = 4"
    | (other) "buffer ! 3 \<noteq> 0" "buffer ! 3 \<noteq> 1" "buffer ! 3 \<noteq> 4" by blast
  then show ?case
  proof cases
    case data
    have "unat (buffer ! 0) \<le> 255"
      using unsigned_less [of "buffer ! 0", where ?'a = nat] by simp
    then have len: "\<forall>e\<in>set (map_insert ?rec fData). length (snd e) \<le> 255"
      using less.prems(3) map_insert_subset [of ?rec fData] by auto
    have "Parse_loop_map (l + 1) extended (map_insert ?rec fData) rest = Inr m"
      using less.prems(1) Parse_loop_map_data [OF rd dec data] by simp
    from less.hyps [OF read_line_shorter [OF rd] this map_insert_sorted [OF less.prems(2)] len]
    show ?thesis .
  next
    case eof
    with less.prems rd dec show ?thesis
      by (subst (asm) Parse_loop_map.simps) (auto simp: Let_def split: if_splits)
  next
    case ext
    with less.prems(1) rd dec have c: "buffer ! 0 = 2"
      by (subst (asm) Parse_loop_map.simps) (auto simp: Let_def split: if_splits)
    have "Parse_loop_map (l + 1) (push_bit 24 (ucast (buffer ! 4)) OR push_bit 16 (ucast (buffer ! 5)))
        fData rest = Inr m"
      using less.prems(1) Parse_loop_map_extended [OF rd dec ext c] by simp
    from less.hyps [OF read_line_shorter [OF rd] this less.prems(2,3)]
    show ?thesis .
  next
    case other
    with less.prems(1) rd dec show ?thesis
      by (subst (asm) Parse_loop_map.simps) (auto simp: Let_def split: if_splits)
  qed
qed


section \<open>Decoding, then encoding\<close>

text \<open>
  C2, as the specification states it for the record-list version: decoding a
  well-formed file and encoding the image gives the file back byte for byte. The
  decoder reads lower-case digits, the encoder writes upper-case ones: the file made
  of the line \<^verbatim>\<open>:00000001ff\<close> is decoded, and comes back as \<^verbatim>\<open>:00000001FF\<close>.
\<close>

theorem C2_lowercase_counterexample:
  "Parse_vec ('':00000001ff'' @ CRLF)
     = Inr [\<lparr>size_r = 0, address = 0, type_r = 1, data = [], checksum = 0xFF\<rparr>]
   \<and> Generate_vec [\<lparr>size_r = 0, address = 0, type_r = 1, data = [], checksum = 0xFF\<rparr>]
     \<noteq> '':00000001ff'' @ CRLF"
  by code_simp

text \<open>
  C2, amended. Record-list version: a file made of lines in the encoder's own form
  (the colon, two upper-case digits for each byte, CR LF) that is decoded without
  error, every line giving a record (so that the end-of-file record is the last
  line), is reproduced byte for byte by decoding and then encoding. Address-keyed
  version: for every file that is decoded without error, the encoder's output
  decodes to the same image, that is, to the same payload at every address.
\<close>

theorem C2_round_trip:
  "(Parse_vec (concat (map record_line bss)) = Inr I \<longrightarrow> length I = length bss \<longrightarrow>
      Generate_vec I = concat (map record_line bss))
   \<and> (Parse_map input = Inr m \<longrightarrow> Parse_map (Generate_map m) = Inr m)"
proof (intro conjI impI)
  assume "Parse_vec (concat (map record_line bss)) = Inr I" and "length I = length bss"
  then show "Generate_vec I = concat (map record_line bss)"
    using Parse_loop_vec_lines [of 1 "[]" bss I] by (simp add: Parse_vec_def Generate_vec_def)
next
  assume "Parse_map input = Inr m"
  then have inv: "sorted_wrt (<) (map fst m)" "\<forall>e\<in>set m. length (snd e) \<le> 255"
    using Parse_loop_map_invariant [of 1 0 "[]" input m] by (simp_all add: Parse_map_def)
  have "Parse_map (Generate_map m) = Inr (foldl (\<lambda>a r. map_insert r a) [] m)"
    using Parse_loop_map_Generate [OF inv(2), of 1 0 "[]" "[]"]
    by (simp add: Parse_map_def Generate_map_def)
  also have "foldl (\<lambda>a r. map_insert r a) [] m = m"
    using foldl_map_insert_sorted [of "[]" m] inv(1) by simp
  finally show "Parse_map (Generate_map m) = Inr m" .
qed

text \<open>
  A two-line file in the encoder's form, and a file with lower-case digits and a
  bare line feed whose image is written and read back.
\<close>

theorem C2_round_trip_witness:
  "Generate_vec [\<lparr>size_r = 2, address = 0x1234, type_r = 0, data = [1, 2], checksum = 0xB5\<rparr>,
                 \<lparr>size_r = 0, address = 0, type_r = 1, data = [], checksum = 0xFF\<rparr>]
     = '':021234000102B5'' @ CRLF @ '':00000001FF'' @ CRLF
   \<and> Parse_map (Generate_map [(0xABCD1234, [1, 2])]) = Inr [(0xABCD1234, [1, 2])]"
proof -
  let ?bss = "[[2, 0x12, 0x34, 0, 1, 2, 0xB5], [0, 0, 0, 1, 0xFF :: u8]]"
  let ?I = "[\<lparr>size_r = 2, address = 0x1234, type_r = 0, data = [1, 2], checksum = 0xB5\<rparr>,
             \<lparr>size_r = 0, address = 0, type_r = 1, data = [], checksum = 0xFF\<rparr>]"
  let ?input = "'':02000004abcd82'' @ [CHR 0x0A] @ '':021234000102b5'' @ CRLF @ '':00000001ff'' @ CRLF"
  have f: "concat (map record_line ?bss) = '':021234000102B5'' @ CRLF @ '':00000001FF'' @ CRLF"
    by code_simp
  have a: "Parse_vec (concat (map record_line ?bss)) = Inr ?I"
    by code_simp
  have b: "length ?I = length ?bss"
    by simp
  have c: "Parse_map ?input = Inr [(0xABCD1234, [1, 2])]"
    by code_simp
  from C2_round_trip [of ?bss ?I ?input "[(0xABCD1234, [1, 2])]"] a b c f
  show ?thesis by simp
qed

section \<open>The extended address\<close>

text \<open>
  C5 ends with an example: after the line \<^verbatim>\<open>:02000004ABCD00DF\<close>, a data record at
  the 16-bit address 0x1234 is stored at 0xABCD1234. That line declares two payload
  bytes and carries three, and its bytes sum to 0x5D: the decoder rejects it with a
  checksum error and stores nothing.
\<close>

theorem C5_example_line_counterexample:
  "Parse_map ('':02000004ABCD00DF'' @ CRLF @ '':021234000102B5'' @ CRLF @ '':00000001FF'' @ CRLF)
     = Inl (ParseError 1 16 ''checksum error'' ('':02000004ABCD00DF'' @ [CHR 0x0D]))"
  by code_simp

text \<open>
  C5, amended. The address bank is zero when a decode starts. A decoded record of
  type 4 with the payload bytes b0 and b1 sets the bank to (b0<<24)|(b1<<16) and
  the loop goes on with that bank. A decoded data record at the 16-bit address a
  leaves the bank as it is and is inserted in the image under the key bank|a, where
  it is stored when no entry has that key. In particular, after the line
  \<^verbatim>\<open>:02000004ABCD82\<close>, the data record \<^verbatim>\<open>:021234000102B5\<close> at the 16-bit address
  0x1234 is stored at the absolute address 0xABCD1234.
\<close>

theorem C5_extended_address:
  assumes rd: "read_line input = Inr (line, len, rest)"
    and dec: "decode_line l line len = Inr buffer"
  shows "Parse_map input0 = Parse_loop_map 1 0 [] input0
   \<and> (buffer ! 3 = 4 \<longrightarrow> buffer ! 0 = 2 \<longrightarrow>
        Parse_loop_map l extended fData input
          = Parse_loop_map (l + 1) (push_bit 24 (ucast (buffer ! 4)) OR push_bit 16 (ucast (buffer ! 5)))
              fData rest)
   \<and> (buffer ! 3 = 0 \<longrightarrow>
        Parse_loop_map l extended fData input
          = Parse_loop_map (l + 1) extended
              (map_insert
                 (extended OR ucast (push_bit 8 (ucast (buffer ! 1)) OR ucast (buffer ! 2) :: u16),
                  take (unat (buffer ! 0)) (drop 4 buffer)) fData) rest)
   \<and> (map_of fData a = None \<longrightarrow> map_of (map_insert (a, p) fData) a = Some p)
   \<and> Parse_map ('':02000004ABCD82'' @ CRLF @ '':021234000102B5'' @ CRLF @ '':00000001FF'' @ CRLF)
        = Inr [(0xABCD1234, [1, 2])]"
proof (intro conjI impI)
  show "Parse_map input0 = Parse_loop_map 1 0 [] input0"
    by (simp add: Parse_map_def)
  show "Parse_loop_map l extended fData input
          = Parse_loop_map (l + 1) (push_bit 24 (ucast (buffer ! 4)) OR push_bit 16 (ucast (buffer ! 5)))
              fData rest" if "buffer ! 3 = 4" "buffer ! 0 = 2"
    using that by (rule Parse_loop_map_extended [OF rd dec])
  show "Parse_loop_map l extended fData input
          = Parse_loop_map (l + 1) extended
              (map_insert
                 (extended OR ucast (push_bit 8 (ucast (buffer ! 1)) OR ucast (buffer ! 2) :: u16),
                  take (unat (buffer ! 0)) (drop 4 buffer)) fData) rest" if "buffer ! 3 = 0"
    using that by (rule Parse_loop_map_data [OF rd dec])
  show "map_of (map_insert (a, p) fData) a = Some p" if "map_of fData a = None"
    using map_insert_absent [of fData "(a, p)"] that by simp
  show "Parse_map ('':02000004ABCD82'' @ CRLF @ '':021234000102B5'' @ CRLF @ '':00000001FF'' @ CRLF)
        = Inr [(0xABCD1234, [1, 2])]"
    by code_simp
qed

text \<open>The two steps of the example: the bank is set, then the record is stored.\<close>

theorem C5_extended_address_witness:
  "Parse_loop_map 1 0 [] ('':02000004ABCD82'' @ CRLF @ '':021234000102B5'' @ CRLF @ '':00000001FF'' @ CRLF)
     = Parse_loop_map (1 + 1) 0xABCD0000 [] ('':021234000102B5'' @ CRLF @ '':00000001FF'' @ CRLF)
   \<and> Parse_loop_map 2 0xABCD0000 [] ('':021234000102B5'' @ CRLF @ '':00000001FF'' @ CRLF)
     = Parse_loop_map (2 + 1) 0xABCD0000 [(0xABCD1234, [1, 2])] ('':00000001FF'' @ CRLF)
   \<and> map_of (map_insert (0xABCD1234, [1, 2]) []) (0xABCD1234 :: u32) = Some [1, 2 :: u8]"
proof -
  let ?l1 = "'':02000004ABCD82'' @ [CHR 0x0D]" and ?l2 = "'':021234000102B5'' @ [CHR 0x0D]"
  let ?r1 = "'':021234000102B5'' @ CRLF @ '':00000001FF'' @ CRLF" and ?r2 = "'':00000001FF'' @ CRLF"
  let ?b1 = "[2, 0, 0, 4, 0xAB, 0xCD, 0x82 :: u8]" and ?b2 = "[2, 0x12, 0x34, 0, 1, 2, 0xB5 :: u8]"
  have rd1: "read_line ('':02000004ABCD82'' @ CRLF @ ?r1) = Inr (?l1, 16, ?r1)"
    by code_simp
  have dec1: "decode_line 1 ?l1 16 = Inr ?b1"
    by code_simp
  have rd2: "read_line ?r1 = Inr (?l2, 16, ?r2)"
    by code_simp
  have dec2: "decode_line 2 ?l2 16 = Inr ?b2"
    by code_simp
  have t1: "?b1 ! 3 = 4" "?b1 ! 0 = 2" and t2: "?b2 ! 3 = 0"
    by simp_all
  have e: "push_bit 24 (ucast (?b1 ! 4)) OR push_bit 16 (ucast (?b1 ! 5)) = (0xABCD0000 :: u32)"
    by simp
  have k: "(0xABCD0000 OR ucast (push_bit 8 (ucast (?b2 ! 1)) OR ucast (?b2 ! 2) :: u16),
            take (unat (?b2 ! 0)) (drop 4 ?b2)) = (0xABCD1234 :: u32, [1, 2 :: u8])"
    by simp
  have i: "map_insert (0xABCD1234 :: u32, [1, 2 :: u8]) [] = [(0xABCD1234, [1, 2])]"
    by simp
  have n: "map_of ([] :: image) 0xABCD1234 = None"
    by simp
  note c1 = C5_extended_address [OF rd1 dec1, of "[]" 0 "[]" "0xABCD1234" "[1, 2]"]
  note c2 = C5_extended_address [OF rd2 dec2, of "[]" "0xABCD0000" "[]" 0 "[]"]
  from c1 t1 have "Parse_loop_map 1 0 [] ('':02000004ABCD82'' @ CRLF @ ?r1)
      = Parse_loop_map (1 + 1) (push_bit 24 (ucast (?b1 ! 4)) OR push_bit 16 (ucast (?b1 ! 5))) [] ?r1"
    by blast
  then have a: "Parse_loop_map 1 0 [] ('':02000004ABCD82'' @ CRLF @ ?r1)
      = Parse_loop_map (1 + 1) 0xABCD0000 [] ?r1"
    unfolding e .
  from c2 t2 have "Parse_loop_map 2 0xABCD0000 [] ?r1
      = Parse_loop_map (2 + 1) 0xABCD0000
          (map_insert (0xABCD0000 OR ucast (push_bit 8 (ucast (?b2 ! 1)) OR ucast (?b2 ! 2) :: u16),
                       take (unat (?b2 ! 0)) (drop 4 ?b2)) []) ?r2"
    by blast
  then have b: "Parse_loop_map 2 0xABCD0000 [] ?r1
      = Parse_loop_map (2 + 1) 0xABCD0000 [(0xABCD1234, [1, 2])] ?r2"
    unfolding k i .
  from c1 n have c: "map_of (map_insert (0xABCD1234, [1, 2]) []) (0xABCD1234 :: u32) = Some [1, 2 :: u8]"
    by blast
  from a b c show ?thesis
    by (intro conjI)
qed

section \<open>The cipher pass applied twice\<close>

text \<open>
  The generator returns as many bytes as it is asked for, and what it does to the
  permutation does not depend on the payloads: the second pass draws the bytes of
  the first. A record that \<^verbatim>\<open>Parse\<close> built has the checksum \<^verbatim>\<open>UpdateChecksum\<close>
  computes, so the second pass restores it too.
\<close>

lemma generate_stream_loop_length: "length (snd (generate_stream_loop n i j state)) = n"
  by (induction n arbitrary: i j state) (simp_all add: Let_def split_beta)

lemma arcfour_generate_stream_length: "length (snd (arcfour_generate_stream state len)) = len"
  by (simp add: arcfour_generate_stream_def generate_stream_loop_length)

lemma xor_stream_twice:
  "length stream = length d \<Longrightarrow>
   map (\<lambda>(d, k). d XOR k) (zip (map (\<lambda>(d, k). d XOR k) (zip d stream)) stream) = (d :: u8 list)"
proof (induction d arbitrary: stream)
  case Nil
  show ?case by simp
next
  case (Cons x d)
  then obtain k ks where "stream = k # ks" by (cases stream) auto
  with Cons show ?case by (simp add: xor.assoc)
qed

lemma Cipher_loop_map_twice: "Cipher_loop_map state (Cipher_loop_map state m) = m"
proof (induction m arbitrary: state)
  case Nil
  show ?case by simp
next
  case (Cons e m)
  obtain state' stream where g: "arcfour_generate_stream state (length (snd e)) = (state', stream)"
    by (cases "arcfour_generate_stream state (length (snd e))")
  then have "length stream = length (snd e)"
    using arcfour_generate_stream_length [of state "length (snd e)"] by simp
  with g Cons.IH [of state'] show ?case
    by (simp add: xor_stream_twice)
qed

lemma UpdateChecksum_data:
  "UpdateChecksum (UpdateChecksum (r\<lparr>data := d'\<rparr>)\<lparr>data := d\<rparr>) = UpdateChecksum (r\<lparr>data := d\<rparr>)"
  by (simp add: UpdateChecksum_def)

lemma Cipher_loop_vec_twice:
  "\<forall>r\<in>set I. UpdateChecksum r = r \<Longrightarrow> Cipher_loop_vec state (Cipher_loop_vec state I) = I"
proof (induction I arbitrary: state)
  case Nil
  show ?case by simp
next
  case (Cons r I)
  obtain state' stream where g: "arcfour_generate_stream state (length (data r)) = (state', stream)"
    by (cases "arcfour_generate_stream state (length (data r))")
  then have len: "length stream = length (data r)"
    using arcfour_generate_stream_length [of state "length (data r)"] by simp
  let ?d' = "map (\<lambda>(d, k). d XOR k) (zip (data r) stream)"
  have d': "data (UpdateChecksum (r\<lparr>data := ?d'\<rparr>)) = ?d'"
    by (simp add: UpdateChecksum_def)
  have "UpdateChecksum (UpdateChecksum (r\<lparr>data := ?d'\<rparr>)\<lparr>data := data r\<rparr>) = UpdateChecksum r"
    by (simp add: UpdateChecksum_data)
  also have "\<dots> = r" using Cons.prems by simp
  finally have restored: "UpdateChecksum (UpdateChecksum (r\<lparr>data := ?d'\<rparr>)\<lparr>data := data r\<rparr>) = r" .
  from Cons.prems have "Cipher_loop_vec state' (Cipher_loop_vec state' I) = I"
    by (intro Cons.IH) simp
  with g len restored d' show ?case
    by (simp add: xor_stream_twice)
qed

lemma decode_line_Inr:
  assumes "decode_line l line len = Inr buffer"
  shows "sum_list buffer = 0" and "unat (buffer ! 0) + 5 = length buffer"
proof -
  from assms obtain sum8 where
    c: "convert l line len 1 (drop 1 (take len line)) [] 0 0 = Inr (buffer, sum8)"
    and s: "sum8 = 0" and n: "unat (buffer ! 0) + 5 = length buffer"
    by (auto simp: decode_line_def split: if_splits sum.splits)
  from convert_sum_list [OF c] s show "sum_list buffer = 0" by simp
  from n show "unat (buffer ! 0) + 5 = length buffer" .
qed

lemma fold_add_sum: "fold (\<lambda>i c. c + i) xs (a :: u8) = a + sum_list xs"
  by (induction xs arbitrary: a) (simp_all add: add.assoc)

lemma low_byte_mask: "ucast (a AND 0xff :: u16) = (ucast a :: u8)"
proof -
  have "(0xff :: u16) = mask 8" by (simp add: mask_eq_exp_minus_1)
  then show ?thesis
    by (simp add: bit_eq_iff bit_simps)
qed

lemma UpdateChecksum_new:
  assumes s: "sum_list bs = 0" and n: "unat (bs ! 0) + 5 = length bs"
  shows "UpdateChecksum (HexRecord_new bs) = HexRecord_new bs"
proof -
  let ?r = "HexRecord_new bs"
  define S where "S = size_r ?r + ucast (drop_bit 8 (address ?r)) + ucast (address ?r)
      + type_r ?r + sum_list (data ?r)"
  have "sum_list (record_bytes ?r) = 0"
    using record_bytes_new(1) [OF n] s by simp
  then have "S + checksum ?r = 0"
    by (simp add: record_bytes_def S_def add.assoc)
  then have "checksum ?r = - S"
    by (simp add: eq_neg_iff_add_eq_0 add.commute)
  then have "checksum ?r = - (size_r ?r + ucast (drop_bit 8 (address ?r)) + ucast (address ?r)
      + type_r ?r + sum_list (data ?r))"
    unfolding S_def .
  then have "UpdateChecksum ?r = ?r\<lparr>checksum := checksum ?r\<rparr>"
    unfolding UpdateChecksum_def by (simp only: fold_add_sum low_byte_mask)
  then show ?thesis by simp
qed

lemma Parse_loop_vec_checksums:
  "Parse_loop_vec l fData input = Inr I \<Longrightarrow> \<forall>r\<in>set fData. UpdateChecksum r = r \<Longrightarrow>
   \<forall>r\<in>set I. UpdateChecksum r = r"
proof (induction "length input" arbitrary: l fData input rule: less_induct)
  case less
  from less.prems(1) obtain line len rest buffer where
    rd: "read_line input = Inr (line, len, rest)" and dec: "decode_line l line len = Inr buffer"
    by (subst (asm) Parse_loop_vec.simps) (auto split: sum.splits)
  let ?r = "HexRecord_new buffer"
  have r: "UpdateChecksum ?r = ?r"
    using decode_line_Inr [OF dec] by (rule UpdateChecksum_new)
  with less.prems(2) have all: "\<forall>r\<in>set (fData @ [?r]). UpdateChecksum r = r"
    by simp
  show ?case
  proof (cases "type_r ?r = 1")
    case True
    with less.prems(1) Parse_loop_vec_step [OF rd dec, of fData] have "I = fData @ [?r]"
      by simp
    with all show ?thesis by simp
  next
    case False
    with less.prems(1) Parse_loop_vec_step [OF rd dec, of fData]
    have "Parse_loop_vec (l + 1) (fData @ [?r]) rest = Inr I"
      by simp
    from less.hyps [OF read_line_shorter [OF rd] this all] show ?thesis .
  qed
qed

text \<open>
  C1: for every non-empty key, the cipher pass applied twice with that key restores
  a decoded image exactly, records, payloads and checksums, in the record-list
  version and in the address-keyed version.
\<close>

theorem C1_cipher_involution:
  assumes "key \<noteq> []"
  shows "(Parse_vec input = Inr I \<longrightarrow> Cipher_vec key (Cipher_vec key I) = I)
       \<and> (Parse_map input' = Inr M \<longrightarrow> Cipher_map key (Cipher_map key M) = M)"
proof (intro conjI impI)
  assume "Parse_vec input = Inr I"
  then have "\<forall>r\<in>set I. UpdateChecksum r = r"
    using Parse_loop_vec_checksums [of 1 "[]" input I] by (simp add: Parse_vec_def)
  then show "Cipher_vec key (Cipher_vec key I) = I"
    by (simp add: Cipher_vec_def split_beta Cipher_loop_vec_twice)
next
  show "Cipher_map key (Cipher_map key M) = M"
    by (simp add: Cipher_map_def split_beta Cipher_loop_map_twice)
qed

text \<open>The image of a two-line file, in both versions, with the one-byte key 4B.\<close>

theorem C1_cipher_involution_witness:
  "Cipher_vec [0x4B]
     (Cipher_vec [0x4B]
        [\<lparr>size_r = 2, address = 0x1234, type_r = 0, data = [1, 2], checksum = 0xB5\<rparr>,
         \<lparr>size_r = 0, address = 0, type_r = 1, data = [], checksum = 0xFF\<rparr>])
     = [\<lparr>size_r = 2, address = 0x1234, type_r = 0, data = [1, 2], checksum = 0xB5\<rparr>,
        \<lparr>size_r = 0, address = 0, type_r = 1, data = [], checksum = 0xFF\<rparr>]
   \<and> Cipher_map [0x4B] (Cipher_map [0x4B] [(0x1234, [1, 2])]) = [(0x1234, [1, 2])]"
proof -
  let ?input = "'':021234000102B5'' @ CRLF @ '':00000001FF'' @ CRLF"
  have k: "[0x4B :: u8] \<noteq> []"
    by simp
  have a: "Parse_vec ?input
      = Inr [\<lparr>size_r = 2, address = 0x1234, type_r = 0, data = [1, 2], checksum = 0xB5\<rparr>,
             \<lparr>size_r = 0, address = 0, type_r = 1, data = [], checksum = 0xFF\<rparr>]"
    by code_simp
  have b: "Parse_map ?input = Inr [(0x1234, [1, 2])]"
    by code_simp
  from C1_cipher_involution [OF k, of ?input _ ?input "[(0x1234, [1, 2])]"] a b
  show ?thesis by blast
qed


section \<open>Checksum enforcement\<close>











section \<open>The keystream with the key of the test program\<close>

lemma test_key_setup: "arcfour_key_setup test_key = test_key_state"
  by code_simp

lemma test_key_discard: "fst (arcfour_generate_stream test_key_state 256) = test_key_state_256"
  by code_simp

text \<open>
  C4 says that drawing n1 bytes and then n2 bytes gives the bytes of one draw of
  n1 + n2. \<^verbatim>\<open>arcfour_generate_stream\<close> starts its two index counters at zero in
  every call, so a second call does not resume the first: from the permutation of the
  test key, two draws of one byte give BD C8, one draw of two bytes gives BD 19.
\<close>

theorem C4_stream_restarts:
  "snd (arcfour_generate_stream (arcfour_key_setup test_key) 1) = [0xBD]
   \<and> snd (arcfour_generate_stream (fst (arcfour_generate_stream (arcfour_key_setup test_key) 1)) 1)
       = [0xC8]
   \<and> snd (arcfour_generate_stream (arcfour_key_setup test_key) (1 + 1)) = [0xBD, 0x19]"
  unfolding test_key_setup by code_simp

text \<open>
  C3 says that the cipher pass leaves the payload of an extended linear address
  record as it is. The record-list \<^verbatim>\<open>Cipher\<close> goes through every stored record
  without looking at its type: with the test key, the bank bytes AB CD become C7 16
  (and the file then names another bank), while the data bytes 01 02 become D7 C7.
\<close>

theorem C3_extended_address_enciphered:
  "Parse_vec ('':02000004ABCD82'' @ CRLF @ '':021234000102B5'' @ CRLF @ '':00000001FF'' @ CRLF)
     = Inr [\<lparr>size_r = 2, address = 0, type_r = 4, data = [0xAB, 0xCD], checksum = 0x82\<rparr>,
            \<lparr>size_r = 2, address = 0x1234, type_r = 0, data = [1, 2], checksum = 0xB5\<rparr>,
            \<lparr>size_r = 0, address = 0, type_r = 1, data = [], checksum = 0xFF\<rparr>]
   \<and> Cipher_vec test_key
        [\<lparr>size_r = 2, address = 0, type_r = 4, data = [0xAB, 0xCD], checksum = 0x82\<rparr>,
         \<lparr>size_r = 2, address = 0x1234, type_r = 0, data = [1, 2], checksum = 0xB5\<rparr>,
         \<lparr>size_r = 0, address = 0, type_r = 1, data = [], checksum = 0xFF\<rparr>]
     = [\<lparr>size_r = 2, address = 0, type_r = 4, data = [0xC7, 0x16], checksum = 0x1D\<rparr>,
        \<lparr>size_r = 2, address = 0x1234, type_r = 0, data = [0xD7, 0xC7], checksum = 0x1A\<rparr>,
        \<lparr>size_r = 0, address = 0, type_r = 1, data = [], checksum = 0xFF\<rparr>]"
  unfolding Cipher_vec_def Let_def split_beta test_key_setup test_key_discard by code_simp

end
